theory Spec2Isabelle
  imports Main
begin

section \<open>Errors\<close>

text \<open>
  Exceptions are values. \<open>ValueError\<close> is Python's built-in exception, raised by
  \<^verbatim>\<open>Record.add_birthday\<close> (record.py, line 92), by \<^verbatim>\<open>datetime.date(...)\<close> on an
  impossible date and by tuple unpacking in the handlers. \<open>OverflowError\<close> is what
  \<^verbatim>\<open>date + timedelta\<close> raises when the result leaves the range of \<^verbatim>\<open>date\<close>.
  \<open>ValidationError\<close> is the failure of the value types \<^verbatim>\<open>Phone\<close> and \<^verbatim>\<open>Birthday\<close>,
  whose modules (bot/models/phone.py, bot/models/birthday.py) are not among the sources.
  A method of the model returns \<open>Inl e\<close> when the Python method raises \<open>e\<close>; every
  method modelled here raises before its first assignment, so the object is then
  as it was before the call.
\<close>

datatype error = ValidationError | ValueError string | OverflowError

section \<open>The calendar: Python's \<^verbatim>\<open>datetime.date\<close>\<close>

record date =
  year :: int
  month :: int
  day :: int

definition is_leap :: "int \<Rightarrow> bool" where
  "is_leap y = (y mod 4 = 0 \<and> (y mod 100 \<noteq> 0 \<or> y mod 400 = 0))"

definition days_in_month :: "int \<Rightarrow> int \<Rightarrow> int" where
  "days_in_month y m =
     (if m = 2 then (if is_leap y then 29 else 28)
      else if m = 4 \<or> m = 6 \<or> m = 9 \<or> m = 11 then 30 else 31)"

definition days_before_year :: "int \<Rightarrow> int" where
  "days_before_year y = (y - 1) * 365 + (y - 1) div 4 - (y - 1) div 100 + (y - 1) div 400"

definition days_before_month :: "int \<Rightarrow> int \<Rightarrow> int" where
  "days_before_month y m =
     (if m = 1 then 0 else if m = 2 then 31 else if m = 3 then 59 else if m = 4 then 90
      else if m = 5 then 120 else if m = 6 then 151 else if m = 7 then 181
      else if m = 8 then 212 else if m = 9 then 243 else if m = 10 then 273
      else if m = 11 then 304 else 334)
     + (if 2 < m \<and> is_leap y then 1 else 0)"

text \<open>The dates a \<^verbatim>\<open>date\<close> object can hold: 01.01.0001 to 31.12.9999.\<close>

definition valid_date :: "date \<Rightarrow> bool" where
  "valid_date d = (1 \<le> year d \<and> year d \<le> 9999 \<and> 1 \<le> month d \<and> month d \<le> 12
      \<and> 1 \<le> day d \<and> day d \<le> days_in_month (year d) (month d))"

fun show_nat :: "nat \<Rightarrow> string" where
  "show_nat n =
     (if n < 10 then [''0123456789'' ! n]
      else show_nat (n div 10) @ [''0123456789'' ! (n mod 10)])"

definition show_int :: "int \<Rightarrow> string" where
  "show_int i = (if i < 0 then CHR ''-'' # show_nat (nat (- i)) else show_nat (nat i))"

text \<open>\<^verbatim>\<open>date(y, m, d)\<close>: the constructor checks its fields and raises \<open>ValueError\<close>.\<close>

definition mk_date :: "int \<Rightarrow> int \<Rightarrow> int \<Rightarrow> error + date" where
  "mk_date y m d =
     (if y < 1 \<or> 9999 < y then Inl (ValueError (''year '' @ show_int y @ '' is out of range''))
      else if m < 1 \<or> 12 < m then Inl (ValueError ''month must be in 1..12'')
      else if d < 1 \<or> days_in_month y m < d then Inl (ValueError ''day is out of range for month'')
      else Inr \<lparr>year = y, month = m, day = d\<rparr>)"

text \<open>\<^verbatim>\<open>date.toordinal()\<close>: 01.01.0001 is day 1.\<close>

definition toordinal :: "date \<Rightarrow> int" where
  "toordinal d = days_before_year (year d) + days_before_month (year d) (month d) + day d"

text \<open>\<^verbatim>\<open>date.weekday()\<close>: Monday is 0, Saturday 5, Sunday 6.\<close>

definition weekday :: "date \<Rightarrow> int" where
  "weekday d = (toordinal d + 6) mod 7"

text \<open>Comparison of dates is comparison of (year, month, day).\<close>

definition date_lt :: "date \<Rightarrow> date \<Rightarrow> bool" where
  "date_lt a b = (year a < year b \<or> (year a = year b \<and>
      (month a < month b \<or> (month a = month b \<and> day a < day b))))"

definition date_le :: "date \<Rightarrow> date \<Rightarrow> bool" where
  "date_le a b = (\<not> date_lt b a)"

definition date_max :: date where
  "date_max = \<lparr>year = 9999, month = 12, day = 31\<rparr>"

definition next_day :: "date \<Rightarrow> date" where
  "next_day d =
     (if day d < days_in_month (year d) (month d) then d\<lparr>day := day d + 1\<rparr>
      else if month d < 12 then \<lparr>year = year d, month = month d + 1, day = 1\<rparr>
      else \<lparr>year = year d + 1, month = 1, day = 1\<rparr>)"

text \<open>
  \<^verbatim>\<open>d + timedelta(days=n)\<close> for \<open>n \<ge> 0\<close> (the program adds 7, 2 and 1): \<open>n\<close> steps
  to the next day, \<open>OverflowError\<close> when a step would pass 31.12.9999.
\<close>

fun date_add :: "date \<Rightarrow> nat \<Rightarrow> error + date" where
  "date_add d 0 = Inr d"
| "date_add d (Suc n) = (if d = date_max then Inl OverflowError else date_add (next_day d) n)"

definition zfill :: "nat \<Rightarrow> string \<Rightarrow> string" where
  "zfill w s = replicate (w - length s) (CHR ''0'') @ s"

text \<open>\<^verbatim>\<open>d.strftime('%d.%m.%Y')\<close>, with the zero padding of Python's documentation.\<close>

definition strftime_dmy :: "date \<Rightarrow> string" where
  "strftime_dmy d = zfill 2 (show_int (day d)) @ ''.'' @ zfill 2 (show_int (month d))
      @ ''.'' @ zfill 4 (show_int (year d))"

section \<open>Value types\<close>

definition is_digit :: "char \<Rightarrow> bool" where
  "is_digit c = (c \<in> set ''0123456789'')"

definition digits_value :: "string \<Rightarrow> int" where
  "digits_value s = foldl (\<lambda>a c. 10 * a + (of_char c - 48)) 0 s"

datatype phone = MkPhone (phone_value: string)

text \<open>
  Modelled from the spec: the class \<^verbatim>\<open>Phone\<close> (bot/models/phone.py is not among the
  sources). "\<^verbatim>\<open>Phone(raw)\<close>: fails with \<^verbatim>\<open>ValidationError\<close> unless \<^verbatim>\<open>raw\<close> is exactly 10
  characters, all decimal digits"; the object stores \<^verbatim>\<open>raw\<close> as its \<^verbatim>\<open>value\<close>.
\<close>

definition Phone :: "string \<Rightarrow> error + phone" where
  "Phone raw = (if length raw = 10 \<and> list_all is_digit raw then Inr (MkPhone raw)
                else Inl ValidationError)"

text \<open>
  Modelled from the spec: the class \<^verbatim>\<open>Birthday\<close> (bot/models/birthday.py is not among
  the sources). "\<^verbatim>\<open>Birthday(raw)\<close>: parses \<^verbatim>\<open>raw\<close> as \<^verbatim>\<open>dd.mm.yyyy\<close>; fails with
  \<^verbatim>\<open>ValidationError\<close> on any parse failure (wrong format, day/month out of range,
  non-existent date such as 31.02)"; the object's \<^verbatim>\<open>value\<close> is the date.
\<close>

definition Birthday :: "string \<Rightarrow> error + date" where
  "Birthday raw =
     (if length raw = 10 \<and> raw ! 2 = CHR ''.'' \<and> raw ! 5 = CHR ''.''
         \<and> list_all is_digit (take 2 raw @ take 2 (drop 3 raw) @ drop 6 raw)
      then (case mk_date (digits_value (drop 6 raw)) (digits_value (take 2 (drop 3 raw)))
                  (digits_value (take 2 raw)) of
              Inl e \<Rightarrow> Inl ValidationError
            | Inr d \<Rightarrow> Inr d)
      else Inl ValidationError)"

section \<open>Record (bot/models/record.py)\<close>

text \<open>
  \<open>name\<close> is \<^verbatim>\<open>self.name.value\<close>, \<open>phones\<close> the list \<^verbatim>\<open>self.phones\<close>, \<open>birthday\<close> is
  \<open>None\<close> for \<^verbatim>\<open>self.birthday is None\<close> and otherwise the \<^verbatim>\<open>value\<close> of the Birthday.
\<close>

record contact =
  name :: string
  phones :: "phone list"
  birthday :: "date option"

definition Record_init :: "string \<Rightarrow> contact" where
  "Record_init nm = \<lparr>name = nm, phones = [], birthday = None\<rparr>"

definition add_phone :: "string \<Rightarrow> contact \<Rightarrow> error + contact" where
  "add_phone phone_number r =
     (case Phone phone_number of
        Inl e \<Rightarrow> Inl e
      | Inr p \<Rightarrow> Inr (r\<lparr>phones := phones r @ [p]\<rparr>))"

definition remove_phone :: "string \<Rightarrow> contact \<Rightarrow> contact" where
  "remove_phone phone_number r =
     r\<lparr>phones := filter (\<lambda>p. phone_value p \<noteq> phone_number) (phones r)\<rparr>"

definition edit_phone :: "string \<Rightarrow> string \<Rightarrow> contact \<Rightarrow> error + contact" where
  "edit_phone old_phone_number new_phone_number r =
     (case add_phone new_phone_number r of
        Inl e \<Rightarrow> Inl e
      | Inr r1 \<Rightarrow> Inr (remove_phone old_phone_number r1))"

definition find_phone :: "string \<Rightarrow> contact \<Rightarrow> phone option" where
  "find_phone phone_number r = List.find (\<lambda>p. phone_value p = phone_number) (phones r)"

definition add_birthday :: "string \<Rightarrow> contact \<Rightarrow> error + contact" where
  "add_birthday b r =
     (case birthday r of
        None \<Rightarrow> (case Birthday b of
                   Inl e \<Rightarrow> Inl e
                 | Inr d \<Rightarrow> Inr (r\<lparr>birthday := Some d\<rparr>))
      | Some old \<Rightarrow> Inl (ValueError ''Birthday is already set''))"

text \<open>
  The record after a call: the updated record when the method returned, the record as
  it was when the method raised.
\<close>

definition state_after :: "error + contact \<Rightarrow> contact \<Rightarrow> contact" where
  "state_after res r = (case res of Inl e \<Rightarrow> r | Inr r' \<Rightarrow> r')"

section \<open>AddressBook (bot/models/address_book.py)\<close>

text \<open>
  The dictionary \<^verbatim>\<open>self.data\<close> in insertion order: a list of (key, record) pairs.
  \<open>dict_set\<close> is \<^verbatim>\<open>data[k] = v\<close>: an existing key keeps its place, a new one is appended.
\<close>

type_synonym address_book = "(string \<times> contact) list"

fun dict_set :: "string \<Rightarrow> contact \<Rightarrow> address_book \<Rightarrow> address_book" where
  "dict_set k v [] = [(k, v)]"
| "dict_set k v ((k', v') # kvs) =
     (if k = k' then (k, v) # kvs else (k', v') # dict_set k v kvs)"

definition add_record :: "contact \<Rightarrow> address_book \<Rightarrow> address_book" where
  "add_record r book = dict_set (name r) r book"

definition find_record :: "string \<Rightarrow> address_book \<Rightarrow> contact option" where
  "find_record nm book = map_of book nm"

text \<open>
  \<^verbatim>\<open>_is_date_within_days\<close>. \<open>today_date\<close> is the reading of \<^verbatim>\<open>datetime.now().date()\<close>,
  \<open>days\<close> the non-negative number of days (the only caller passes 7). The chained
  comparison evaluates \<^verbatim>\<open>today_date + timedelta(days=days)\<close> only when its first half
  holds.
\<close>

definition is_date_within_days :: "date \<Rightarrow> date \<Rightarrow> nat \<Rightarrow> error + bool" where
  "is_date_within_days today_date target_date days =
     (case mk_date (year today_date) (month target_date) (day target_date) of
        Inl e \<Rightarrow> Inl e
      | Inr date_this_year \<Rightarrow>
          (case (if date_lt date_this_year today_date
                 then mk_date (year today_date + 1) (month target_date) (day target_date)
                 else Inr date_this_year) of
             Inl e \<Rightarrow> Inl e
           | Inr target \<Rightarrow>
               if \<not> date_le today_date target then Inr False
               else (case date_add today_date days of
                       Inl e \<Rightarrow> Inl e
                     | Inr limit \<Rightarrow> Inr (date_le target limit))))"

definition adjust_to_weekday :: "date \<Rightarrow> error + date" where
  "adjust_to_weekday date_obj =
     (if weekday date_obj = 5 then date_add date_obj 2
      else if weekday date_obj = 6 then date_add date_obj 1
      else Inr date_obj)"

text \<open>
  The body of the \<^verbatim>\<open>try\<close> block of \<^verbatim>\<open>get_upcoming_birthdays\<close> for one record with a
  birthday: \<open>Inr (Some line)\<close> when a line is appended, \<open>Inr None\<close> when the record is
  outside the window, \<open>Inl e\<close> when the block raises \<open>e\<close>. The program reads the
  clock once in \<^verbatim>\<open>get_upcoming_birthdays\<close> and once more in every call of
  \<^verbatim>\<open>_is_date_within_days\<close>; \<open>today_date\<close> is that reading, the same date in all of them
  unless midnight passes during the query.
\<close>

definition upcoming_entry :: "date \<Rightarrow> contact \<Rightarrow> date \<Rightarrow> error + string option" where
  "upcoming_entry today_date r user_birthday =
     (case is_date_within_days today_date user_birthday 7 of
        Inl e \<Rightarrow> Inl e
      | Inr within \<Rightarrow>
          if \<not> within then Inr None
          else (case mk_date (year today_date) (month user_birthday) (day user_birthday) of
              Inl e \<Rightarrow> Inl e
            | Inr birthday_this_year \<Rightarrow>
                (case (if date_lt birthday_this_year today_date
                       then mk_date (year today_date + 1) (month user_birthday) (day user_birthday)
                       else Inr birthday_this_year) of
                   Inl e \<Rightarrow> Inl e
                 | Inr congratulation_date \<Rightarrow>
                     (case adjust_to_weekday congratulation_date of
                        Inl e \<Rightarrow> Inl e
                      | Inr shifted \<Rightarrow>
                          Inr (Some (''Contact name: '' @ name r @ '', birthday: ''
                                     @ strftime_dmy shifted))))))"

text \<open>
  The loop over \<^verbatim>\<open>self.data.values()\<close>; \<open>acc\<close> is \<^verbatim>\<open>upcoming_birthdays_list\<close>.
  \<^verbatim>\<open>except ValueError: pass\<close> goes on with the next record; any other exception
  leaves the loop.
\<close>

fun upcoming_loop :: "date \<Rightarrow> contact list \<Rightarrow> string list \<Rightarrow> error + string list" where
  "upcoming_loop today_date [] acc = Inr acc"
| "upcoming_loop today_date (r # rs) acc =
     (case birthday r of
        None \<Rightarrow> upcoming_loop today_date rs acc
      | Some user_birthday \<Rightarrow>
          (case upcoming_entry today_date r user_birthday of
             Inl e \<Rightarrow> (case e of
                         ValueError msg \<Rightarrow> upcoming_loop today_date rs acc
                       | ValidationError \<Rightarrow> Inl e
                       | OverflowError \<Rightarrow> Inl e)
           | Inr None \<Rightarrow> upcoming_loop today_date rs acc
           | Inr (Some line) \<Rightarrow> upcoming_loop today_date rs (acc @ [line])))"

text \<open>\<^verbatim>\<open>sep.join(xs)\<close>.\<close>

fun join :: "string \<Rightarrow> string list \<Rightarrow> string" where
  "join sep [] = []"
| "join sep [x] = x"
| "join sep (x # y # ys) = x @ sep @ join sep (y # ys)"

definition get_upcoming_birthdays :: "date \<Rightarrow> address_book \<Rightarrow> error + string" where
  "get_upcoming_birthdays today_date book =
     (case upcoming_loop today_date (map snd book) [] of
        Inl e \<Rightarrow> Inl e
      | Inr upcoming_birthdays_list \<Rightarrow> Inr (join [CHR 0x0A] upcoming_birthdays_list))"

section \<open>Handlers (bot/cli/handlers.py)\<close>

text \<open>
  A handler returns its reply and the address book after the call. \<open>Inl e\<close> as reply
  means that \<open>e\<close> is raised inside the handler and reaches the decorator
  \<^verbatim>\<open>input_error\<close> (bot/cli/input_error.py, not among the sources). \<^verbatim>\<open>edit_phone\<close> works
  on the record object stored under \<^verbatim>\<open>name_str\<close>, so the book afterwards holds the
  edited record under that key.
\<close>

definition change_contact :: "string list \<Rightarrow> address_book \<Rightarrow> (error + string) \<times> address_book" where
  "change_contact args book =
     (if length args < 3
      then (Inr ''Insufficient arguments. Usage: change <name> <old_phone> <new_phone>'', book)
      else (case args of
          [name_str, old_phone_str, new_phone_str] \<Rightarrow>
            (case find_record name_str book of
               None \<Rightarrow> (Inr (''No contact found with name '' @ name_str @ ''.''), book)
             | Some r \<Rightarrow>
                 (case find_phone old_phone_str r of
                    None \<Rightarrow> (Inr (''No phone number '' @ old_phone_str
                                   @ '' found for contact '' @ name_str @ ''.''), book)
                  | Some p \<Rightarrow>
                      (case edit_phone old_phone_str new_phone_str r of
                         Inl e \<Rightarrow> (Inl e, book)
                       | Inr r' \<Rightarrow> (Inr ''Contact updated.'', dict_set name_str r' book))))
        | _ \<Rightarrow> (Inl (ValueError ''too many values to unpack (expected 3)''), book)))"

definition birthdays :: "date \<Rightarrow> address_book \<Rightarrow> error + string" where
  "birthdays today_date book =
     (if book = [] then Inr ''No contacts.'' else get_upcoming_birthdays today_date book)"

section \<open>The specification's notions\<close>

text \<open>
  The next occurrence of a birthday (month, day), in the specification's words: this
  year's (month, day) if that date is on or after today, otherwise next year's
  (month, day). \<open>None\<close> when the date in question does not exist.
\<close>

definition next_occurrence :: "date \<Rightarrow> int \<Rightarrow> int \<Rightarrow> date option" where
  "next_occurrence today m d =
     (case mk_date (year today) m d of
        Inl e \<Rightarrow> None
      | Inr this_year \<Rightarrow>
          if date_le today this_year then Some this_year
          else (case mk_date (year today + 1) m d of
                  Inl e \<Rightarrow> None
                | Inr next_year \<Rightarrow> Some next_year))"

text \<open>The weekend shift: Saturday two days on, Sunday one day on.\<close>

definition weekend_shift :: "date \<Rightarrow> date" where
  "weekend_shift d =
     (if weekday d = 5 then next_day (next_day d)
      else if weekday d = 6 then next_day d
      else d)"

text \<open>
  The line of one record in the result of the query, if any: the record has a birthday,
  its next occurrence exists and is at most 7 days after today; the date shown is the
  shifted one.
\<close>

definition congratulation_line :: "date \<Rightarrow> contact \<Rightarrow> string option" where
  "congratulation_line today r =
     (case birthday r of
        None \<Rightarrow> None
      | Some b \<Rightarrow>
          (case next_occurrence today (month b) (day b) of
             None \<Rightarrow> None
           | Some occ \<Rightarrow>
               if toordinal occ \<le> toordinal today + 7
               then Some (''Contact name: '' @ name r @ '', birthday: ''
                          @ strftime_dmy (weekend_shift occ))
               else None))"


declare show_nat.simps [simp del]

section \<open>Phone numbers and birthdays of a record\<close>

lemma find_append_None:
  "List.find P xs = None \<Longrightarrow> List.find P (xs @ ys) = List.find P ys"
  by (induction xs) (auto split: if_splits)

text \<open>
  Claim C8. \<^verbatim>\<open>Phone(raw)\<close> succeeds exactly when \<open>raw\<close> consists of exactly 10
  decimal digits; on success the stored value is \<open>raw\<close> itself; for a \<open>raw\<close> of
  another length or with a character that is not a digit it fails with
  \<open>ValidationError\<close>. (\<open>Phone\<close> is the definition modelled from the specification.)
\<close>

theorem Phone_accepts_exactly_ten_digits:
  "((\<exists>p. Phone raw = Inr p) \<longleftrightarrow> length raw = 10 \<and> list_all is_digit raw)
   \<and> (\<forall>p. Phone raw = Inr p \<longrightarrow> phone_value p = raw)
   \<and> (length raw \<noteq> 10 \<or> \<not> list_all is_digit raw \<longrightarrow> Phone raw = Inl ValidationError)"
  by (auto simp: Phone_def)

text \<open>
  Claim C8 at concrete inputs: a 10-digit number is accepted and stored as it is; a
  9-digit number and a number with a letter are rejected.
\<close>

theorem Phone_accepts_exactly_ten_digits_witness:
  "Phone ''0501234567'' = Inr (MkPhone ''0501234567'')
   \<and> phone_value (MkPhone ''0501234567'') = ''0501234567''
   \<and> Phone ''123456789'' = Inl ValidationError
   \<and> Phone ''12345a7890'' = Inl ValidationError"
proof -
  have ok: "length ''0501234567'' = 10 \<and> list_all is_digit ''0501234567''"
    by (simp add: is_digit_def)
  have short: "length ''123456789'' \<noteq> 10 \<or> \<not> list_all is_digit ''123456789''"
    by simp
  have letter: "length ''12345a7890'' \<noteq> 10 \<or> \<not> list_all is_digit ''12345a7890''"
    by (simp add: is_digit_def)
  note t = Phone_accepts_exactly_ten_digits
  have "\<exists>p. Phone ''0501234567'' = Inr p"
    by (rule iffD2[OF conjunct1[OF t] ok])
  then obtain p where p: "Phone ''0501234567'' = Inr p" ..
  have v: "phone_value p = ''0501234567''"
    by (rule mp[OF spec[OF conjunct1[OF conjunct2[OF t]]] p])
  have p': "p = MkPhone ''0501234567''" using v by (cases p) simp
  have s: "Phone ''123456789'' = Inl ValidationError"
    by (rule mp[OF conjunct2[OF conjunct2[OF t]] short])
  have l: "Phone ''12345a7890'' = Inl ValidationError"
    by (rule mp[OF conjunct2[OF conjunct2[OF t]] letter])
  show ?thesis using p p' s l by simp
qed

text \<open>
  Claim C4 says that \<^verbatim>\<open>edit_phone(x, x)\<close> on a record holding \<open>x\<close> leaves at least one
  entry \<open>x\<close>. The method appends the new entry and then removes every entry whose
  value is the old number, the appended one included: on a record whose only phone is
  1234567890 the call returns normally and the list is empty; the handler
  \<^verbatim>\<open>change_contact\<close> reaches this call and replies "Contact updated.".
\<close>

theorem edit_phone_same_number_drops_it:
  "edit_phone ''1234567890'' ''1234567890''
     \<lparr>name = ''John'', phones = [MkPhone ''1234567890''], birthday = None\<rparr>
   = Inr \<lparr>name = ''John'', phones = [], birthday = None\<rparr>
   \<and> change_contact [''John'', ''1234567890'', ''1234567890'']
     [(''John'', \<lparr>name = ''John'', phones = [MkPhone ''1234567890''], birthday = None\<rparr>)]
   = (Inr ''Contact updated.'',
      [(''John'', \<lparr>name = ''John'', phones = [], birthday = None\<rparr>)])"
  by (simp add: change_contact_def find_record_def find_phone_def edit_phone_def add_phone_def
      remove_phone_def Phone_def is_digit_def)

text \<open>
  Claim C5 as stated fails when the old number is stored twice: the record holds the
  old number, does not hold the new one, and after \<^verbatim>\<open>edit_phone\<close> the list has one
  entry where it had two.
\<close>

theorem edit_phone_duplicate_old_counterexample:
  "find_phone ''1111111111''
      \<lparr>name = ''John'', phones = [MkPhone ''1111111111'', MkPhone ''1111111111''], birthday = None\<rparr>
     = Some (MkPhone ''1111111111'')
   \<and> find_phone ''2222222222''
      \<lparr>name = ''John'', phones = [MkPhone ''1111111111'', MkPhone ''1111111111''], birthday = None\<rparr>
     = None
   \<and> edit_phone ''1111111111'' ''2222222222''
      \<lparr>name = ''John'', phones = [MkPhone ''1111111111'', MkPhone ''1111111111''], birthday = None\<rparr>
     = Inr \<lparr>name = ''John'', phones = [MkPhone ''2222222222''], birthday = None\<rparr>
   \<and> length [MkPhone ''2222222222'']
     \<noteq> length [MkPhone ''1111111111'', MkPhone ''1111111111'']"
  by (simp add: edit_phone_def add_phone_def remove_phone_def Phone_def is_digit_def find_phone_def)

text \<open>
  Claim C5, amended. For every record whose phone list contains \<open>old\<close> exactly once,
  with \<open>old \<noteq> new\<close> and no prior entry equal to \<open>new\<close>: after
  \<^verbatim>\<open>edit_phone(old, new)\<close> has returned, the list contains \<open>new\<close>, does not contain
  \<open>old\<close>, and has the length it had before the call.
\<close>

theorem edit_phone_replaces_single_old:
  assumes "edit_phone old new r = Inr r'"
    and "old \<noteq> new"
    and "find_phone new r = None"
    and "length (filter (\<lambda>p. phone_value p = old) (phones r)) = 1"
  shows "find_phone new r' = Some (MkPhone new) \<and> find_phone old r' = None
     \<and> length (phones r') = length (phones r)"
proof -
  from assms(1) have p: "Phone new = Inr (MkPhone new)"
    and r': "r' = remove_phone old (r\<lparr>phones := phones r @ [MkPhone new]\<rparr>)"
    by (auto simp: edit_phone_def add_phone_def Phone_def split: sum.splits if_splits)
  have ph: "phones r' = filter (\<lambda>p. phone_value p \<noteq> old) (phones r) @ [MkPhone new]"
    using assms(2) by (simp add: r' remove_phone_def)
  have "length (phones r) = length (filter (\<lambda>p. phone_value p = old) (phones r))
      + length (filter (\<lambda>p. phone_value p \<noteq> old) (phones r))"
    using sum_length_filter_compl[of "\<lambda>p. phone_value p = old" "phones r"] by simp
  then have len: "length (phones r') = length (phones r)"
    using assms(4) by (simp add: ph)
  have nf: "\<forall>p \<in> set (phones r). phone_value p \<noteq> new"
    using assms(3) by (auto simp: find_phone_def find_None_iff)
  have "List.find (\<lambda>p. phone_value p = new) (filter (\<lambda>p. phone_value p \<noteq> old) (phones r)) = None"
    using nf by (simp add: find_None_iff)
  then have "find_phone new r' = Some (MkPhone new)"
    unfolding find_phone_def ph by (simp add: find_append_None)
  moreover have "find_phone old r' = None"
    using assms(2) by (auto simp: find_phone_def find_None_iff ph)
  ultimately show ?thesis using len by simp
qed

text \<open>
  Claim C5, amended, at a concrete record with two numbers, the second one replaced.
\<close>

theorem edit_phone_replaces_single_old_witness:
  "edit_phone ''0501234567'' ''0671234567''
      \<lparr>name = ''John'', phones = [MkPhone ''0931234567'', MkPhone ''0501234567''], birthday = None\<rparr>
     = Inr \<lparr>name = ''John'', phones = [MkPhone ''0931234567'', MkPhone ''0671234567''], birthday = None\<rparr>
   \<and> find_phone ''0671234567''
      \<lparr>name = ''John'', phones = [MkPhone ''0931234567'', MkPhone ''0671234567''], birthday = None\<rparr>
     = Some (MkPhone ''0671234567'')
   \<and> find_phone ''0501234567''
      \<lparr>name = ''John'', phones = [MkPhone ''0931234567'', MkPhone ''0671234567''], birthday = None\<rparr>
     = None"
proof -
  let ?r = "\<lparr>name = ''John'', phones = [MkPhone ''0931234567'', MkPhone ''0501234567''], birthday = None\<rparr>"
  let ?r' = "\<lparr>name = ''John'', phones = [MkPhone ''0931234567'', MkPhone ''0671234567''], birthday = None\<rparr>"
  have e: "edit_phone ''0501234567'' ''0671234567'' ?r = Inr ?r'"
    by (simp add: edit_phone_def add_phone_def remove_phone_def Phone_def is_digit_def)
  have n: "''0501234567'' \<noteq> ''0671234567''" by simp
  have f: "find_phone ''0671234567'' ?r = None" by (simp add: find_phone_def)
  have c: "length (filter (\<lambda>p. phone_value p = ''0501234567'') (phones ?r)) = 1" by simp
  show ?thesis using e edit_phone_replaces_single_old[OF e n f c] by simp
qed

text \<open>
  Claim C6 as stated fails. With John's list ["987654321"], the call
  \<^verbatim>\<open>change("John", "987654321", "111111111")\<close> raises \<open>ValidationError\<close> (the new number has
  9 digits) and leaves the list as it is. And from the list ["111111111"] that the
  claim expects after the first call, the repeated call replies that the old number is
  not found and leaves the one-element list: no second "111111111" is added.
\<close>

theorem change_contact_repeated_counterexample:
  "change_contact [''John'', ''987654321'', ''111111111'']
      [(''John'', \<lparr>name = ''John'', phones = [MkPhone ''987654321''], birthday = None\<rparr>)]
   = (Inl ValidationError,
      [(''John'', \<lparr>name = ''John'', phones = [MkPhone ''987654321''], birthday = None\<rparr>)])
   \<and> change_contact [''John'', ''987654321'', ''111111111'']
      [(''John'', \<lparr>name = ''John'', phones = [MkPhone ''111111111''], birthday = None\<rparr>)]
   = (Inr ''No phone number 987654321 found for contact John.'',
      [(''John'', \<lparr>name = ''John'', phones = [MkPhone ''111111111''], birthday = None\<rparr>)])"
  by (simp add: change_contact_def find_record_def find_phone_def edit_phone_def add_phone_def
      Phone_def)

text \<open>
  Claim C6, amended. Starting from a contact John whose phone list is exactly
  [\<open>old\<close>], with \<open>new\<close> a number of exactly 10 digits other than \<open>old\<close>:
  \<^verbatim>\<open>change("John", old, new)\<close> replies "Contact updated." and makes the list [\<open>new\<close>];
  repeating the identical call, with the old number now absent, replies
  "No phone number \<open>old\<close> found for contact John." and leaves the list [\<open>new\<close>].
\<close>

theorem change_contact_repeated:
  assumes "length new = 10" and "list_all is_digit new" and "old \<noteq> new"
  shows "change_contact [''John'', old, new]
      [(''John'', \<lparr>name = ''John'', phones = [MkPhone old], birthday = b\<rparr>)]
   = (Inr ''Contact updated.'',
      [(''John'', \<lparr>name = ''John'', phones = [MkPhone new], birthday = b\<rparr>)])
   \<and> change_contact [''John'', old, new]
      [(''John'', \<lparr>name = ''John'', phones = [MkPhone new], birthday = b\<rparr>)]
   = (Inr (''No phone number '' @ old @ '' found for contact John.''),
      [(''John'', \<lparr>name = ''John'', phones = [MkPhone new], birthday = b\<rparr>)])"
  using assms
  by (simp add: change_contact_def find_record_def find_phone_def edit_phone_def add_phone_def
      remove_phone_def Phone_def)

text \<open>
  Claim C6, amended, at the numbers 0501234567 and 0671234567.
\<close>

theorem change_contact_repeated_witness:
  "length ''0671234567'' = 10 \<and> list_all is_digit ''0671234567''
   \<and> ''0501234567'' \<noteq> ''0671234567''
   \<and> change_contact [''John'', ''0501234567'', ''0671234567'']
      [(''John'', \<lparr>name = ''John'', phones = [MkPhone ''0501234567''], birthday = None\<rparr>)]
   = (Inr ''Contact updated.'',
      [(''John'', \<lparr>name = ''John'', phones = [MkPhone ''0671234567''], birthday = None\<rparr>)])
   \<and> change_contact [''John'', ''0501234567'', ''0671234567'']
      [(''John'', \<lparr>name = ''John'', phones = [MkPhone ''0671234567''], birthday = None\<rparr>)]
   = (Inr ''No phone number 0501234567 found for contact John.'',
      [(''John'', \<lparr>name = ''John'', phones = [MkPhone ''0671234567''], birthday = None\<rparr>)])"
proof -
  have a: "length ''0671234567'' = 10" by simp
  have b: "list_all is_digit ''0671234567''" by (simp add: is_digit_def)
  have c: "''0501234567'' \<noteq> ''0671234567''" by simp
  show ?thesis using a b c change_contact_repeated[OF a b c, of None] by simp
qed

text \<open>
  Claim C7. When a first \<^verbatim>\<open>add_birthday\<close> on a record has succeeded, the record stores
  the birthday it was given; a second \<^verbatim>\<open>add_birthday\<close>, with any argument, raises
  \<^verbatim>\<open>ValueError("Birthday is already set")\<close> (the specification's AlreadySetError)
  and the record keeps the first birthday.
\<close>

theorem add_birthday_twice:
  assumes "add_birthday b1 r = Inr r1"
  shows "(\<exists>d. Birthday b1 = Inr d \<and> birthday r1 = Some d)
     \<and> add_birthday b2 r1 = Inl (ValueError ''Birthday is already set'')
     \<and> birthday (state_after (add_birthday b2 r1) r1) = birthday r1"
  using assms
  by (auto simp: add_birthday_def state_after_def split: option.splits sum.splits)

text \<open>
  Claim C7 at a concrete record: Ann gets the birthday 08.06.1990; adding 09.07.1991
  afterwards fails and 08.06.1990 stays.
\<close>

theorem add_birthday_twice_witness:
  "add_birthday ''08.06.1990'' (Record_init ''Ann'')
     = Inr \<lparr>name = ''Ann'', phones = [], birthday = Some \<lparr>year = 1990, month = 6, day = 8\<rparr>\<rparr>
   \<and> add_birthday ''09.07.1991''
        \<lparr>name = ''Ann'', phones = [], birthday = Some \<lparr>year = 1990, month = 6, day = 8\<rparr>\<rparr>
     = Inl (ValueError ''Birthday is already set'')
   \<and> birthday (state_after (add_birthday ''09.07.1991''
        \<lparr>name = ''Ann'', phones = [], birthday = Some \<lparr>year = 1990, month = 6, day = 8\<rparr>\<rparr>)
        \<lparr>name = ''Ann'', phones = [], birthday = Some \<lparr>year = 1990, month = 6, day = 8\<rparr>\<rparr>)
     = Some \<lparr>year = 1990, month = 6, day = 8\<rparr>"
proof -
  have h: "add_birthday ''08.06.1990'' (Record_init ''Ann'')
     = Inr \<lparr>name = ''Ann'', phones = [], birthday = Some \<lparr>year = 1990, month = 6, day = 8\<rparr>\<rparr>"
    by (simp add: add_birthday_def Record_init_def Birthday_def is_digit_def digits_value_def
        mk_date_def days_in_month_def)
  show ?thesis using h add_birthday_twice[OF h, of "''09.07.1991''"]
    by (simp add: state_after_def)
qed

text \<open>
  Claim C10. When the address book holds a record under the name \<open>n\<close> and that record
  has no phone equal to \<open>old\<close>, \<^verbatim>\<open>change_contact([n, old, new], book)\<close> replies
  "No phone number \<open>old\<close> found for contact \<open>n\<close>." and the address book, with this
  record and every other one, is as it was.
\<close>

theorem change_contact_absent_old:
  assumes "find_record n book = Some r" and "find_phone old r = None"
  shows "change_contact [n, old, new] book
     = (Inr (''No phone number '' @ old @ '' found for contact '' @ n @ ''.''), book)"
  using assms by (simp add: change_contact_def)

text \<open>
  Claim C10 at a concrete address book of two contacts.
\<close>

theorem change_contact_absent_old_witness:
  "change_contact [''John'', ''0501234567'', ''0671234567'']
      [(''Ann'', \<lparr>name = ''Ann'', phones = [MkPhone ''0501234567''], birthday = None\<rparr>),
       (''John'', \<lparr>name = ''John'', phones = [MkPhone ''0931234567''], birthday = None\<rparr>)]
   = (Inr ''No phone number 0501234567 found for contact John.'',
      [(''Ann'', \<lparr>name = ''Ann'', phones = [MkPhone ''0501234567''], birthday = None\<rparr>),
       (''John'', \<lparr>name = ''John'', phones = [MkPhone ''0931234567''], birthday = None\<rparr>)])"
proof -
  have f: "find_record ''John''
      [(''Ann'', \<lparr>name = ''Ann'', phones = [MkPhone ''0501234567''], birthday = None\<rparr>),
       (''John'', \<lparr>name = ''John'', phones = [MkPhone ''0931234567''], birthday = None\<rparr>)]
     = Some \<lparr>name = ''John'', phones = [MkPhone ''0931234567''], birthday = None\<rparr>"
    by (simp add: find_record_def)
  have p: "find_phone ''0501234567''
      \<lparr>name = ''John'', phones = [MkPhone ''0931234567''], birthday = None\<rparr> = None"
    by (simp add: find_phone_def)
  show ?thesis using change_contact_absent_old[OF f p, of "''0671234567''"] by simp
qed

section \<open>Day numbers and the order of dates\<close>

lemma div_step: "0 < n \<Longrightarrow> (y::int) div n = (y - 1) div n + (if y mod n = 0 then 1 else 0)"
proof (cases "y mod n = 0")
  case True
  assume n: "0 < n"
  have "n dvd y" using True by (rule mod_0_imp_dvd)
  then have "n * (y div n) = y" by (rule dvd_mult_div_cancel)
  then have "y - 1 = n * (y div n - 1) + (n - 1)" by (simp add: algebra_simps)
  then have "(y - 1) div n = y div n - 1"
    by (rule int_div_pos_eq) (use n in simp_all)
  then show ?thesis using True by simp
next
  case False
  assume n: "0 < n"
  have "y - 1 = n * (y div n) + (y mod n - 1)" by (simp add: algebra_simps)
  moreover have "0 \<le> y mod n" using n by simp
  then have "0 \<le> y mod n - 1" using False by simp
  moreover have "y mod n - 1 < n" using pos_mod_bound[OF n, of y] by simp
  ultimately have "(y - 1) div n = y div n" by (rule int_div_pos_eq)
  then show ?thesis using False by simp
qed


lemma mod_400_100: "(y::int) mod 400 = 0 \<Longrightarrow> y mod 100 = 0"
proof -
  assume "y mod 400 = 0"
  then have "400 dvd y" by (rule mod_0_imp_dvd)
  moreover have "(100::int) dvd 400" by simp
  ultimately have "100 dvd y" using dvd_trans by blast
  then show ?thesis by (rule dvd_imp_mod_0)
qed

lemma mod_100_4: "(y::int) mod 100 = 0 \<Longrightarrow> y mod 4 = 0"
proof -
  assume "y mod 100 = 0"
  then have "100 dvd y" by (rule mod_0_imp_dvd)
  moreover have "(4::int) dvd 100" by simp
  ultimately have "4 dvd y" using dvd_trans by blast
  then show ?thesis by (rule dvd_imp_mod_0)
qed


lemma dby_arith:
  fixes y :: int
  assumes "Y4 = A4 + c4" "Y100 = A100 + c100" "Y400 = A400 + c400"
  shows "y * 365 + Y4 - Y100 + Y400 = ((y - 1) * 365 + A4 - A100 + A400) + 365 + c4 - c100 + c400"
proof -
  have "y * 365 = (y - 1) * 365 + 365" by (simp add: left_diff_distrib)
  then show ?thesis unfolding assms by linarith
qed

lemma leap_arith:
  fixes X :: int
  assumes "p400 \<Longrightarrow> p100" "p100 \<Longrightarrow> p4"
  shows "X + 365 + (if p4 then 1 else 0) - (if p100 then 1 else 0) + (if p400 then 1 else 0)
       = X + (if p4 \<and> (\<not> p100 \<or> p400) then 366 else 365)"
  using assms by (cases p4; cases p100; cases p400; simp)

lemma dby_step: "days_before_year (y + 1) = days_before_year y + (if is_leap y then 366 else 365)"
proof -
  have d4: "y div 4 = (y - 1) div 4 + (if y mod 4 = 0 then 1 else 0)" by (rule div_step) simp
  have d100: "y div 100 = (y - 1) div 100 + (if y mod 100 = 0 then 1 else 0)" by (rule div_step) simp
  have d400: "y div 400 = (y - 1) div 400 + (if y mod 400 = 0 then 1 else 0)" by (rule div_step) simp
  have "days_before_year (y + 1) = y * 365 + y div 4 - y div 100 + y div 400"
    unfolding days_before_year_def by simp
  also have "\<dots> = days_before_year y + 365 + (if y mod 4 = 0 then 1 else 0)
      - (if y mod 100 = 0 then 1 else 0) + (if y mod 400 = 0 then 1 else 0)"
    unfolding days_before_year_def by (rule dby_arith[OF d4 d100 d400])
  also have "\<dots> = days_before_year y + (if is_leap y then 366 else 365)"
    unfolding is_leap_def by (rule leap_arith) (erule mod_400_100, erule mod_100_4)
  finally show ?thesis .
qed

lemma dby_mono_aux: "0 \<le> k \<Longrightarrow> days_before_year y + 365 * k \<le> days_before_year (y + k)"
proof (induction k rule: int_ge_induct)
  case base
  then show ?case by simp
next
  case (step i)
  have "days_before_year (y + (i + 1)) = days_before_year ((y + i) + 1)" by (simp add: add.assoc)
  also have "\<dots> \<ge> days_before_year (y + i) + 365" by (simp add: dby_step)
  finally show ?case using step by simp
qed

lemma month_cases: "1 \<le> m \<Longrightarrow> m \<le> (12::int) \<Longrightarrow>
  m = 1 \<or> m = 2 \<or> m = 3 \<or> m = 4 \<or> m = 5 \<or> m = 6 \<or> m = 7 \<or> m = 8 \<or> m = 9 \<or> m = 10 \<or> m = 11 \<or> m = 12"
proof -
  assume "1 \<le> m" "m \<le> 12"
  then have "m \<in> {1..12}" by simp
  also have "{1..12::int} = set [1..12]" by simp
  also have "\<dots> = {1,2,3,4,5,6,7,8,9,10,11,12}" by (simp add: upto.simps)
  finally show ?thesis by simp
qed

lemma dbm_step: "1 \<le> m \<Longrightarrow> m < 12 \<Longrightarrow>
  days_before_month y (m + 1) = days_before_month y m + days_in_month y m"
  using month_cases[of m] by (auto simp: days_before_month_def days_in_month_def)

lemma dbm_last: "days_before_month y 12 + days_in_month y 12 = (if is_leap y then 366 else 365)"
  by (simp add: days_before_month_def days_in_month_def)

lemma dim_pos: "28 \<le> days_in_month y m"
  by (simp add: days_in_month_def)

lemma dbm_mono_aux: "0 \<le> k \<Longrightarrow> 1 \<le> m \<Longrightarrow> m + k \<le> 12 \<Longrightarrow>
  days_before_month y m \<le> days_before_month y (m + k)"
proof (induction k rule: int_ge_induct)
  case base
  then show ?case by simp
next
  case (step i)
  have "days_before_month y (m + (i + 1)) = days_before_month y ((m + i) + 1)" by (simp add: add.assoc)
  also have "\<dots> = days_before_month y (m + i) + days_in_month y (m + i)"
    using step by (intro dbm_step) auto
  finally show ?case using step dim_pos[of y "m + i"] by simp
qed

lemma toordinal_next_day:
  assumes "valid_date d" "d \<noteq> date_max"
  shows "valid_date (next_day d) \<and> toordinal (next_day d) = toordinal d + 1"
proof -
  have v: "1 \<le> year d" "year d \<le> 9999" "1 \<le> month d" "month d \<le> 12"
      "1 \<le> day d" "day d \<le> days_in_month (year d) (month d)"
    using assms(1) by (auto simp: valid_date_def)
  consider (a) "day d < days_in_month (year d) (month d)"
    | (b) "day d = days_in_month (year d) (month d)" "month d < 12"
    | (c) "day d = days_in_month (year d) (month d)" "month d = 12"
    using v by linarith
  then show ?thesis
  proof cases
    case a
    have nd: "next_day d = d\<lparr>day := day d + 1\<rparr>" using a by (simp add: next_day_def)
    have "valid_date (next_day d)" unfolding nd valid_date_def using v a by simp
    moreover have "toordinal (next_day d) = toordinal d + 1" unfolding nd toordinal_def by simp
    ultimately show ?thesis by simp
  next
    case b
    have nd: "next_day d = \<lparr>year = year d, month = month d + 1, day = 1\<rparr>"
      using b by (simp add: next_day_def)
    have "valid_date (next_day d)"
      unfolding nd valid_date_def using v b dim_pos[of "year d" "month d + 1"] by simp
    moreover have "days_before_month (year d) (month d + 1)
        = days_before_month (year d) (month d) + days_in_month (year d) (month d)"
      using v b by (intro dbm_step)
    then have "toordinal (next_day d) = toordinal d + 1"
      unfolding nd toordinal_def using b(1) by simp
    ultimately show ?thesis by simp
  next
    case c
    have d31: "day d = 31" using c by (simp add: days_in_month_def)
    have "year d \<noteq> 9999"
    proof
      assume "year d = 9999"
      then have "d = date_max" using c d31 by (simp add: date_max_def)
      then show False using assms(2) by simp
    qed
    then have y: "year d + 1 \<le> 9999" using v by linarith
    have nd: "next_day d = \<lparr>year = year d + 1, month = 1, day = 1\<rparr>"
      using c by (simp add: next_day_def)
    have "toordinal (next_day d) = days_before_year (year d + 1) + 1"
      unfolding nd by (simp add: toordinal_def days_before_month_def)
    also have "\<dots> = days_before_year (year d) + (if is_leap (year d) then 366 else 365) + 1"
      by (simp only: dby_step)
    also have "\<dots> = toordinal d + 1"
      using c d31 by (simp add: toordinal_def days_before_month_def)
    finally have "toordinal (next_day d) = toordinal d + 1" .
    moreover have "valid_date (next_day d)"
      unfolding nd using v y by (simp add: valid_date_def days_in_month_def)
    ultimately show ?thesis by simp
  qed
qed


lemma doy_le:
  assumes "1 \<le> m" "m \<le> 12" "dd \<le> days_in_month y m"
  shows "days_before_month y m + dd \<le> (if is_leap y then 366 else 365)"
proof -
  have "days_before_month y m + days_in_month y m \<le> (if is_leap y then 366 else 365)"
  proof (cases "m = 12")
    case True
    then show ?thesis using dbm_last[of y] by simp
  next
    case False
    then have lt: "m < 12" using assms(2) by simp
    have "days_before_month y m + days_in_month y m = days_before_month y (m + 1)"
      using assms(1) lt by (simp add: dbm_step)
    also have "\<dots> \<le> days_before_month y ((m + 1) + (12 - (m + 1)))"
      using assms(1) lt by (intro dbm_mono_aux) auto
    also have "\<dots> = days_before_month y 12" by simp
    also have "\<dots> \<le> (if is_leap y then 366 else 365)"
      using dbm_last[of y] dim_pos[of y 12] by (simp split: if_splits)
    finally show ?thesis .
  qed
  then show ?thesis using assms(3) by (simp split: if_splits)
qed

lemma date_lt_toordinal:
  assumes "valid_date a" "valid_date b" "date_lt a b"
  shows "toordinal a < toordinal b"
proof -
  have va: "1 \<le> month a" "month a \<le> 12" "1 \<le> day a" "day a \<le> days_in_month (year a) (month a)"
    using assms(1) by (auto simp: valid_date_def)
  have vb: "1 \<le> month b" "month b \<le> 12" "1 \<le> day b" "day b \<le> days_in_month (year b) (month b)"
    using assms(2) by (auto simp: valid_date_def)
  consider (y) "year a < year b"
    | (m) "year a = year b" "month a < month b"
    | (d) "year a = year b" "month a = month b" "day a < day b"
    using assms(3) by (auto simp: date_lt_def)
  then show ?thesis
  proof cases
    case y
    have "days_before_month (year a) (month a) + day a \<le> (if is_leap (year a) then 366 else 365)"
      using va by (intro doy_le) auto
    then have "toordinal a \<le> days_before_year (year a + 1)"
      by (simp add: toordinal_def dby_step)
    also have "\<dots> \<le> days_before_year ((year a + 1) + (year b - (year a + 1)))"
      using dby_mono_aux[of "year b - (year a + 1)" "year a + 1"] y by simp
    also have "\<dots> = days_before_year (year b)" by simp
    also have "\<dots> < toordinal b"
      using vb dbm_mono_aux[of "month b - 1" 1 "year b"]
      by (simp add: toordinal_def days_before_month_def[of _ 1])
    finally show ?thesis .
  next
    case m
    have "days_before_month (year a) (month a) + day a
        \<le> days_before_month (year a) (month a + 1)"
      using va m vb by (simp add: dbm_step)
    also have "\<dots> \<le> days_before_month (year a) ((month a + 1) + (month b - (month a + 1)))"
      using va vb m by (intro dbm_mono_aux) auto
    also have "\<dots> = days_before_month (year b) (month b)" using m by simp
    finally show ?thesis using vb m by (simp add: toordinal_def)
  next
    case d
    then show ?thesis by (simp add: toordinal_def)
  qed
qed

lemma date_lt_iff_toordinal:
  assumes "valid_date a" "valid_date b"
  shows "date_lt a b \<longleftrightarrow> toordinal a < toordinal b"
proof
  assume "date_lt a b"
  then show "toordinal a < toordinal b" using assms by (intro date_lt_toordinal)
next
  assume lt: "toordinal a < toordinal b"
  show "date_lt a b"
  proof (rule ccontr)
    assume n: "\<not> date_lt a b"
    have "a = b \<or> date_lt b a"
      using n by (cases a, cases b) (auto simp: date_lt_def)
    then show False
    proof
      assume "a = b" then show False using lt by simp
    next
      assume "date_lt b a"
      then have "toordinal b < toordinal a" using assms by (intro date_lt_toordinal)
      then show False using lt by simp
    qed
  qed
qed

lemma date_le_iff_toordinal:
  assumes "valid_date a" "valid_date b"
  shows "date_le a b \<longleftrightarrow> toordinal a \<le> toordinal b"
  unfolding date_le_def using date_lt_iff_toordinal[OF assms(2) assms(1)] by auto


lemma toordinal_date_max: "toordinal date_max = 3652059"
  by (simp add: toordinal_def date_max_def days_before_year_def days_before_month_def is_leap_def)

lemma valid_date_max: "valid_date date_max"
  by (simp add: valid_date_def date_max_def days_in_month_def)

lemma toordinal_le_max:
  assumes "valid_date d"
  shows "toordinal d \<le> 3652059"
proof -
  have "day d \<le> 31" using assms by (simp add: valid_date_def days_in_month_def split: if_splits)
  then have "date_le d date_max"
    using assms by (auto simp: date_le_def date_lt_def date_max_def valid_date_def)
  then show ?thesis
    using date_le_iff_toordinal[OF assms valid_date_max] toordinal_date_max by simp
qed

lemma date_add_ok:
  assumes "valid_date d" "toordinal d + int n \<le> 3652059"
  shows "\<exists>d'. date_add d n = Inr d' \<and> valid_date d' \<and> toordinal d' = toordinal d + int n
      \<and> d' = (next_day ^^ n) d"
  using assms
proof (induction n arbitrary: d)
  case 0
  then show ?case by simp
next
  case (Suc n)
  have ne: "d \<noteq> date_max"
  proof
    assume "d = date_max"
    then show False using Suc.prems(2) toordinal_date_max by simp
  qed
  have nd: "valid_date (next_day d)" "toordinal (next_day d) = toordinal d + 1"
    using toordinal_next_day[OF Suc.prems(1) ne] by simp_all
  have "toordinal (next_day d) + int n \<le> 3652059" using Suc.prems(2) nd(2) by simp
  from Suc.IH[OF nd(1) this] obtain d' where
    "date_add (next_day d) n = Inr d'" "valid_date d'"
    "toordinal d' = toordinal (next_day d) + int n" "d' = (next_day ^^ n) (next_day d)"
    by blast
  then show ?case using ne nd(2) by (simp add: funpow_swap1)
qed

lemma date_add_overflow:
  assumes "valid_date d" "3652059 < toordinal d + int n"
  shows "date_add d n = Inl OverflowError"
  using assms
proof (induction n arbitrary: d)
  case 0
  then show ?case using toordinal_le_max[of d] by simp
next
  case (Suc n)
  show ?case
  proof (cases "d = date_max")
    case True
    then show ?thesis by simp
  next
    case False
    have nd: "valid_date (next_day d)" "toordinal (next_day d) = toordinal d + 1"
      using toordinal_next_day[OF Suc.prems(1) False] by simp_all
    have "3652059 < toordinal (next_day d) + int n" using Suc.prems(2) nd(2) by simp
    from Suc.IH[OF nd(1) this] show ?thesis using False by simp
  qed
qed


section \<open>The query for upcoming birthdays\<close>

lemma mk_date_Inr:
  "mk_date y m d = Inr x \<Longrightarrow> valid_date x \<and> x = \<lparr>year = y, month = m, day = d\<rparr>"
  by (auto simp: mk_date_def valid_date_def split: if_splits)

lemma mk_date_Inl: "mk_date y m d = Inl e \<Longrightarrow> \<exists>msg. e = ValueError msg"
  by (auto simp: mk_date_def split: if_splits)

lemma next_occurrence_Some:
  assumes "next_occurrence today m d = Some occ"
  shows "valid_date occ" "month occ = m" "day occ = d" "date_le today occ"
  using assms
  by (auto simp: next_occurrence_def date_le_def date_lt_def
      split: sum.splits if_splits dest!: mk_date_Inr)

lemma weekend_no_overflow:
  assumes "valid_date d" "weekday d = 5 \<or> weekday d = 6"
  shows "toordinal d + 2 \<le> 3652059"
proof -
  have "toordinal d \<le> 3652059" using assms(1) by (rule toordinal_le_max)
  moreover have "(toordinal d + 6) mod 7 = 5 \<or> (toordinal d + 6) mod 7 = 6"
    using assms(2) by (simp add: weekday_def)
  ultimately show ?thesis by presburger
qed

lemma adjust_to_weekday_shift:
  assumes "valid_date d"
  shows "adjust_to_weekday d = Inr (weekend_shift d)"
    and "valid_date (weekend_shift d)"
    and "toordinal (weekend_shift d)
       = toordinal d + (if weekday d = 5 then 2 else if weekday d = 6 then 1 else 0)"
proof -
  consider (sat) "weekday d = 5" | (sun) "weekday d = 6" | (wk) "weekday d \<noteq> 5" "weekday d \<noteq> 6"
    by blast
  then have "adjust_to_weekday d = Inr (weekend_shift d) \<and> valid_date (weekend_shift d)
     \<and> toordinal (weekend_shift d)
       = toordinal d + (if weekday d = 5 then 2 else if weekday d = 6 then 1 else 0)"
  proof cases
    case sat
    have "toordinal d + int 2 \<le> 3652059" using weekend_no_overflow[OF assms] sat by simp
    from date_add_ok[OF assms this] show ?thesis
      using sat by (auto simp: adjust_to_weekday_def weekend_shift_def numeral_2_eq_2)
  next
    case sun
    have "toordinal d + int 1 \<le> 3652059" using weekend_no_overflow[OF assms] sun by simp
    from date_add_ok[OF assms this] show ?thesis
      using sun by (auto simp: adjust_to_weekday_def weekend_shift_def)
  next
    case wk
    then show ?thesis using assms by (simp add: adjust_to_weekday_def weekend_shift_def)
  qed
  then show "adjust_to_weekday d = Inr (weekend_shift d)"
    and "valid_date (weekend_shift d)"
    and "toordinal (weekend_shift d)
       = toordinal d + (if weekday d = 5 then 2 else if weekday d = 6 then 1 else 0)"
    by simp_all
qed

lemma is_date_within_days_None:
  assumes "next_occurrence today (month b) (day b) = None"
  shows "\<exists>msg. is_date_within_days today b days = Inl (ValueError msg)"
  using assms
  by (auto simp: next_occurrence_def is_date_within_days_def date_le_def
      split: sum.splits if_splits dest: mk_date_Inl)

lemma is_date_within_days_Some:
  assumes "valid_date today" "toordinal today + 7 \<le> 3652059"
    and "next_occurrence today (month b) (day b) = Some occ"
  shows "is_date_within_days today b 7 = Inr (toordinal occ \<le> toordinal today + 7)"
proof -
  note occ = next_occurrence_Some[OF assms(3)]
  from date_add_ok[OF assms(1), of 7] assms(2) obtain lim where
    lim: "date_add today 7 = Inr lim" "valid_date lim" "toordinal lim = toordinal today + 7"
    by auto
  have le: "date_le occ lim \<longleftrightarrow> toordinal occ \<le> toordinal today + 7"
    using date_le_iff_toordinal[OF occ(1) lim(2)] lim(3) by simp
  have "is_date_within_days today b 7 = Inr (date_le occ lim)"
    using assms(3) occ(4) lim(1)
    by (auto simp: next_occurrence_def is_date_within_days_def date_le_def
        split: sum.splits if_splits)
  then show ?thesis using le by simp
qed

lemma is_date_within_days_overflow:
  assumes "valid_date today" "3652059 < toordinal today + 7"
    and "next_occurrence today (month b) (day b) = Some occ"
  shows "is_date_within_days today b 7 = Inl OverflowError"
proof -
  note occ = next_occurrence_Some[OF assms(3)]
  have "date_add today 7 = Inl OverflowError"
    using date_add_overflow[OF assms(1), of 7] assms(2) by simp
  then show ?thesis
    using assms(3) occ(4)
    by (auto simp: next_occurrence_def is_date_within_days_def date_le_def
        split: sum.splits if_splits)
qed

lemma upcoming_entry_None:
  assumes "next_occurrence today (month b) (day b) = None"
  shows "\<exists>msg. upcoming_entry today r b = Inl (ValueError msg)"
  using is_date_within_days_None[OF assms, of 7] by (auto simp: upcoming_entry_def)

lemma upcoming_entry_Some:
  assumes "valid_date today" "toordinal today + 7 \<le> 3652059"
    and "next_occurrence today (month b) (day b) = Some occ"
  shows "upcoming_entry today r b
     = Inr (if toordinal occ \<le> toordinal today + 7
            then Some (''Contact name: '' @ name r @ '', birthday: ''
                       @ strftime_dmy (weekend_shift occ))
            else None)"
proof -
  note occ = next_occurrence_Some[OF assms(3)]
  note adj = adjust_to_weekday_shift(1)[OF occ(1)]
  have cand: "(case mk_date (year today) (month b) (day b) of
        Inl e \<Rightarrow> Inl e
      | Inr birthday_this_year \<Rightarrow>
          (case (if date_lt birthday_this_year today
                 then mk_date (year today + 1) (month b) (day b)
                 else Inr birthday_this_year) of
             Inl e \<Rightarrow> Inl e
           | Inr congratulation_date \<Rightarrow>
               (case adjust_to_weekday congratulation_date of
                  Inl e \<Rightarrow> Inl e
                | Inr shifted \<Rightarrow>
                    Inr (Some (''Contact name: '' @ name r @ '', birthday: ''
                               @ strftime_dmy shifted)))))
     = Inr (Some (''Contact name: '' @ name r @ '', birthday: ''
                               @ strftime_dmy (weekend_shift occ)))"
    using assms(3) adj
    by (auto simp: next_occurrence_def date_le_def split: sum.splits if_splits)
  show ?thesis
    unfolding upcoming_entry_def is_date_within_days_Some[OF assms] using cand by simp
qed

lemma upcoming_entry_line:
  assumes "valid_date today" "toordinal today + 7 \<le> 3652059" "birthday r = Some b"
  shows "(case upcoming_entry today r b of
            Inl e \<Rightarrow> (case e of ValueError msg \<Rightarrow> Inr None | ValidationError \<Rightarrow> Inl e
                        | OverflowError \<Rightarrow> Inl e)
          | Inr x \<Rightarrow> Inr x) = Inr (congratulation_line today r)"
proof (cases "next_occurrence today (month b) (day b)")
  case None
  from upcoming_entry_None[OF None, of r] show ?thesis
    using assms(3) None by (auto simp: congratulation_line_def)
next
  case (Some occ)
  show ?thesis
    using assms(3) Some by (simp add: upcoming_entry_Some[OF assms(1,2) Some] congratulation_line_def)
qed

lemma upcoming_loop_lines:
  assumes "valid_date today" "toordinal today + 7 \<le> 3652059"
  shows "upcoming_loop today rs acc = Inr (acc @ List.map_filter (congratulation_line today) rs)"
proof (induction rs arbitrary: acc)
  case Nil
  then show ?case by (simp add: map_filter_simps)
next
  case (Cons r rs)
  show ?case
  proof (cases "birthday r")
    case None
    then show ?thesis using Cons.IH by (simp add: map_filter_simps congratulation_line_def)
  next
    case (Some b)
    from upcoming_entry_line[OF assms Some] show ?thesis
      using Some Cons.IH
      by (auto simp: map_filter_simps split: sum.splits error.splits option.splits)
  qed
qed

lemma upcoming_loop_skip:
  assumes "birthday r = Some b" "upcoming_entry today r b = Inl (ValueError msg)"
  shows "upcoming_loop today (rs1 @ r # rs2) acc = upcoming_loop today (rs1 @ rs2) acc"
proof (induction rs1 arbitrary: acc)
  case Nil
  then show ?case using assms by simp
next
  case (Cons x xs)
  then show ?case by (simp split: option.splits sum.splits error.splits)
qed

lemma join_Cons: "join sep (x # xs) = x @ (if xs = [] then [] else sep @ join sep xs)"
  by (cases xs) simp_all

lemma upcoming_entry_prefix:
  "upcoming_entry today r b = Inr (Some l) \<Longrightarrow> \<exists>t. l = ''Contact name: '' @ t"
  by (auto simp: upcoming_entry_def split: sum.splits if_splits)

lemma upcoming_loop_prefix:
  assumes "upcoming_loop today rs acc = Inr ls"
    and "list_all (\<lambda>l. \<exists>t. l = ''Contact name: '' @ t) acc"
  shows "list_all (\<lambda>l. \<exists>t. l = ''Contact name: '' @ t) ls"
  using assms
proof (induction rs arbitrary: acc)
  case Nil
  then show ?case by simp
next
  case (Cons r rs)
  show ?case
  proof (cases "birthday r")
    case None
    then show ?thesis using Cons by simp
  next
    case (Some b)
    show ?thesis
    proof (cases "upcoming_entry today r b")
      case (Inl e)
      then show ?thesis using Some Cons by (cases e) auto
    next
      case (Inr x)
      show ?thesis
      proof (cases x)
        case None
        then show ?thesis using Some Inr Cons by simp
      next
        case (Some l)
        have "list_all (\<lambda>l. \<exists>t. l = ''Contact name: '' @ t) (acc @ [l])"
          using Cons.prems(2) upcoming_entry_prefix[of today r b l] Inr Some by simp
        then show ?thesis using \<open>birthday r = Some b\<close> Inr Some Cons.IH Cons.prems(1) by simp
      qed
    qed
  qed
qed

lemma get_upcoming_birthdays_not_no_contacts:
  "get_upcoming_birthdays today book \<noteq> Inr ''No contacts.''"
proof
  assume a: "get_upcoming_birthdays today book = Inr ''No contacts.''"
  then obtain ls where ls: "upcoming_loop today (map snd book) [] = Inr ls"
    and j: "join [CHR 0x0A] ls = ''No contacts.''"
    by (auto simp: get_upcoming_birthdays_def split: sum.splits)
  have p: "list_all (\<lambda>l. \<exists>t. l = ''Contact name: '' @ t) ls"
    using upcoming_loop_prefix[OF ls] by simp
  show False
  proof (cases ls)
    case Nil
    then show ?thesis using j by simp
  next
    case (Cons l ls')
    then obtain t where "l = ''Contact name: '' @ t" using p by auto
    then show ?thesis using j Cons by (simp add: join_Cons)
  qed
qed

lemmas calendar_eval = mk_date_def days_in_month_def is_leap_def date_le_def date_lt_def
  toordinal_def days_before_year_def days_before_month_def valid_date_def date_max_def
  weekday_def next_day_def

text \<open>
  Claim C1. For every birthday (month, day) and every reading \<open>today\<close> of the clock:
  the record passes the inclusion test, that is \<^verbatim>\<open>_is_date_within_days\<close> returns
  \<open>True\<close>, exactly when its next occurrence exists and lies between 0 and 7 days after
  today, both ends included; the next occurrence being this year's (month, day) if that
  date is on or after today and next year's (month, day) otherwise. (The test computes
  today + 7 days as a date, so today is then no later than 24.12.9999.) The next
  occurrence is never before today.
\<close>

theorem inclusion_test_next_occurrence:
  assumes "valid_date today"
  shows "((is_date_within_days today b 7 = Inr True)
       = (case next_occurrence today (month b) (day b) of
            None \<Rightarrow> False
          | Some occ \<Rightarrow> toordinal today \<le> toordinal occ \<and> toordinal occ \<le> toordinal today + 7
                        \<and> toordinal today + 7 \<le> toordinal date_max))
     \<and> (case next_occurrence today (month b) (day b) of
            None \<Rightarrow> True
          | Some occ \<Rightarrow> toordinal today \<le> toordinal occ)"
proof (cases "next_occurrence today (month b) (day b)")
  case None
  then show ?thesis using is_date_within_days_None[OF None, of 7] by auto
next
  case (Some occ)
  note o = next_occurrence_Some[OF Some]
  have ge: "toordinal today \<le> toordinal occ"
    using date_le_iff_toordinal[OF assms o(1)] o(4) by simp
  show ?thesis
  proof (cases "toordinal today + 7 \<le> 3652059")
    case True
    then show ?thesis
      using Some ge is_date_within_days_Some[OF assms True Some] toordinal_date_max by simp
  next
    case False
    then have "3652059 < toordinal today + 7" by simp
    from is_date_within_days_overflow[OF assms this Some] show ?thesis
      using Some ge False toordinal_date_max by simp
  qed
qed

text \<open>
  Claim C1 on 10.06.2025: a birthday on 17.06, exactly 7 days away, passes; a birthday
  on 08.06 rolls to 08.06.2026 and does not pass.
\<close>

theorem inclusion_test_next_occurrence_witness:
  "valid_date \<lparr>year = 2025, month = 6, day = 10\<rparr>
   \<and> toordinal \<lparr>year = 2025, month = 6, day = 10\<rparr> + 7 \<le> toordinal date_max
   \<and> next_occurrence \<lparr>year = 2025, month = 6, day = 10\<rparr> 6 17
        = Some \<lparr>year = 2025, month = 6, day = 17\<rparr>
   \<and> is_date_within_days \<lparr>year = 2025, month = 6, day = 10\<rparr>
        \<lparr>year = 1985, month = 6, day = 17\<rparr> 7 = Inr True
   \<and> next_occurrence \<lparr>year = 2025, month = 6, day = 10\<rparr> 6 8
        = Some \<lparr>year = 2026, month = 6, day = 8\<rparr>
   \<and> is_date_within_days \<lparr>year = 2025, month = 6, day = 10\<rparr>
        \<lparr>year = 1990, month = 6, day = 8\<rparr> 7 \<noteq> Inr True"
proof -
  let ?t = "\<lparr>year = 2025, month = 6, day = 10\<rparr>"
  have v: "valid_date ?t" by (simp add: calendar_eval)
  have l: "toordinal ?t + 7 \<le> toordinal date_max" by (simp add: calendar_eval)
  have n1: "next_occurrence ?t 6 17 = Some \<lparr>year = 2025, month = 6, day = 17\<rparr>"
    by (simp add: next_occurrence_def calendar_eval)
  have n2: "next_occurrence ?t 6 8 = Some \<lparr>year = 2026, month = 6, day = 8\<rparr>"
    by (simp add: next_occurrence_def calendar_eval)
  have o1: "toordinal ?t \<le> toordinal \<lparr>year = 2025, month = 6, day = 17\<rparr>
      \<and> toordinal \<lparr>year = 2025, month = 6, day = 17\<rparr> \<le> toordinal ?t + 7"
    by (simp add: calendar_eval)
  have o2: "\<not> toordinal \<lparr>year = 2026, month = 6, day = 8\<rparr> \<le> toordinal ?t + 7"
    by (simp add: calendar_eval)
  show ?thesis
    using v l n1 n2 o1 o2
      inclusion_test_next_occurrence[OF v, of "\<lparr>year = 1985, month = 6, day = 17\<rparr>"]
      inclusion_test_next_occurrence[OF v, of "\<lparr>year = 1990, month = 6, day = 8\<rparr>"]
    by simp
qed

text \<open>
  Claim C2. For every record whose next occurrence is at most 7 days after today and
  falls on a Saturday or a Sunday (today + 7 days being a date, that is today no later
  than 24.12.9999): the inclusion test holds, it looks at the occurrence before the
  shift; \<^verbatim>\<open>_adjust_to_weekday\<close> moves the occurrence 2 days on from a Saturday and
  1 day on from a Sunday, to a Monday; the line of the record shows the shifted date;
  and the line stands in the result of \<^verbatim>\<open>get_upcoming_birthdays\<close> between the lines of
  the records before and after it. Nothing is asked of the shifted date: it may lie
  beyond the window.
\<close>

theorem weekend_shift_after_inclusion:
  assumes "valid_date today" and "toordinal today + 7 \<le> toordinal date_max"
    and "birthday r = Some b"
    and "next_occurrence today (month b) (day b) = Some occ"
    and "toordinal occ \<le> toordinal today + 7"
    and "weekday occ = 5 \<or> weekday occ = 6"
  shows "is_date_within_days today b 7 = Inr True
     \<and> upcoming_entry today r b
        = Inr (Some (''Contact name: '' @ name r @ '', birthday: ''
                     @ strftime_dmy (weekend_shift occ)))
     \<and> adjust_to_weekday occ = Inr (weekend_shift occ)
     \<and> toordinal (weekend_shift occ) = toordinal occ + (if weekday occ = 5 then 2 else 1)
     \<and> weekday (weekend_shift occ) = 0
     \<and> get_upcoming_birthdays today (b1 @ (k, r) # b2)
        = Inr (join [CHR 0x0A]
            (List.map_filter (congratulation_line today) (map snd b1)
             @ [''Contact name: '' @ name r @ '', birthday: '' @ strftime_dmy (weekend_shift occ)]
             @ List.map_filter (congratulation_line today) (map snd b2)))"
proof -
  have lim: "toordinal today + 7 \<le> 3652059" using assms(2) toordinal_date_max by simp
  note o = next_occurrence_Some[OF assms(4)]
  note adj = adjust_to_weekday_shift[OF o(1)]
  have t: "toordinal (weekend_shift occ) = toordinal occ + (if weekday occ = 5 then 2 else 1)"
    using adj(3) assms(6) by auto
  have "(toordinal occ + 6) mod 7 = 5 \<or> (toordinal occ + 6) mod 7 = 6"
    using assms(6) by (simp add: weekday_def)
  then have w: "weekday (weekend_shift occ) = 0"
    unfolding weekday_def[of "weekend_shift occ"] t using assms(6)
    by (auto simp: weekday_def) presburger+
  have cl: "congratulation_line today r
      = Some (''Contact name: '' @ name r @ '', birthday: '' @ strftime_dmy (weekend_shift occ))"
    using assms(3,4,5) by (simp add: congratulation_line_def)
  have "get_upcoming_birthdays today (b1 @ (k, r) # b2)
      = Inr (join [CHR 0x0A] (List.map_filter (congratulation_line today) (map snd (b1 @ (k, r) # b2))))"
    by (simp add: get_upcoming_birthdays_def upcoming_loop_lines[OF assms(1) lim])
  then have g: "get_upcoming_birthdays today (b1 @ (k, r) # b2)
        = Inr (join [CHR 0x0A]
            (List.map_filter (congratulation_line today) (map snd b1)
             @ [''Contact name: '' @ name r @ '', birthday: '' @ strftime_dmy (weekend_shift occ)]
             @ List.map_filter (congratulation_line today) (map snd b2)))"
    using cl by (simp add: map_filter_def)
  show ?thesis
    using is_date_within_days_Some[OF assms(1) lim assms(4)] assms(5)
      upcoming_entry_Some[OF assms(1) lim assms(4), of r] adj(1) t w g
    by simp
qed

text \<open>
  Claim C2 on Saturday 07.06.2025 with a birthday on 14.06: the occurrence is exactly
  7 days away and a Saturday; the record is included and shown with Monday 16.06.2025,
  9 days after today.
\<close>

theorem weekend_shift_after_inclusion_witness:
  "valid_date \<lparr>year = 2025, month = 6, day = 7\<rparr>
   \<and> toordinal \<lparr>year = 2025, month = 6, day = 7\<rparr> + 7 \<le> toordinal date_max
   \<and> next_occurrence \<lparr>year = 2025, month = 6, day = 7\<rparr> 6 14
        = Some \<lparr>year = 2025, month = 6, day = 14\<rparr>
   \<and> toordinal \<lparr>year = 2025, month = 6, day = 14\<rparr>
        = toordinal \<lparr>year = 2025, month = 6, day = 7\<rparr> + 7
   \<and> weekday \<lparr>year = 2025, month = 6, day = 14\<rparr> = 5
   \<and> weekend_shift \<lparr>year = 2025, month = 6, day = 14\<rparr> = \<lparr>year = 2025, month = 6, day = 16\<rparr>
   \<and> toordinal \<lparr>year = 2025, month = 6, day = 16\<rparr>
        = toordinal \<lparr>year = 2025, month = 6, day = 7\<rparr> + 9
   \<and> is_date_within_days \<lparr>year = 2025, month = 6, day = 7\<rparr>
        \<lparr>year = 1990, month = 6, day = 14\<rparr> 7 = Inr True
   \<and> get_upcoming_birthdays \<lparr>year = 2025, month = 6, day = 7\<rparr>
        [(''Sam'', \<lparr>name = ''Sam'', phones = [],
                    birthday = Some \<lparr>year = 1990, month = 6, day = 14\<rparr>\<rparr>)]
      = Inr ''Contact name: Sam, birthday: 16.06.2025''"
proof -
  let ?t = "\<lparr>year = 2025, month = 6, day = 7\<rparr>"
  let ?b = "\<lparr>year = 1990, month = 6, day = 14\<rparr>"
  let ?o = "\<lparr>year = 2025, month = 6, day = 14\<rparr>"
  let ?r = "\<lparr>name = ''Sam'', phones = [], birthday = Some ?b\<rparr>"
  have v: "valid_date ?t" by (simp add: calendar_eval)
  have l: "toordinal ?t + 7 \<le> toordinal date_max" by (simp add: calendar_eval)
  have b: "birthday ?r = Some ?b" by simp
  have n: "next_occurrence ?t (month ?b) (day ?b) = Some ?o"
    by (simp add: next_occurrence_def calendar_eval)
  have o: "toordinal ?o = toordinal ?t + 7" by (simp add: calendar_eval)
  then have o': "toordinal ?o \<le> toordinal ?t + 7" by simp
  have w: "weekday ?o = 5" by (simp add: calendar_eval)
  then have w': "weekday ?o = 5 \<or> weekday ?o = 6" by simp
  have s: "weekend_shift ?o = \<lparr>year = 2025, month = 6, day = 16\<rparr>"
    by (simp add: weekend_shift_def calendar_eval)
  have f: "strftime_dmy \<lparr>year = 2025, month = 6, day = 16\<rparr> = ''16.06.2025''"
    by (simp add: strftime_dmy_def show_int_def show_nat.simps zfill_def)
  have o9: "toordinal \<lparr>year = 2025, month = 6, day = 16\<rparr> = toordinal ?t + 9"
    by (simp add: calendar_eval)
  show ?thesis
    using v l n o w s o9 f
      weekend_shift_after_inclusion[OF v l b n o' w', of "[]" "''Sam''" "[]"]
    by (simp add: map_filter_simps)
qed

text \<open>
  Claim C3. When a record's occurrence cannot be constructed (\<^verbatim>\<open>date(...)\<close> raises
  \<open>ValueError\<close> for this year's date, or for next year's when that one is needed),
  the query returns what it returns for the address book without that record; with
  today + 7 days a date, that is the lines of the other records.
\<close>

theorem failed_date_construction_skips_record:
  assumes "birthday r = Some b" and "next_occurrence today (month b) (day b) = None"
  shows "get_upcoming_birthdays today (b1 @ (k, r) # b2) = get_upcoming_birthdays today (b1 @ b2)
     \<and> (valid_date today \<and> toordinal today + 7 \<le> toordinal date_max \<longrightarrow>
          get_upcoming_birthdays today (b1 @ (k, r) # b2)
          = Inr (join [CHR 0x0A]
               (List.map_filter (congratulation_line today) (map snd (b1 @ b2)))))"
proof -
  from upcoming_entry_None[OF assms(2), of r] obtain msg where
    e: "upcoming_entry today r b = Inl (ValueError msg)" by blast
  have eq: "get_upcoming_birthdays today (b1 @ (k, r) # b2) = get_upcoming_birthdays today (b1 @ b2)"
    using upcoming_loop_skip[OF assms(1) e, of "map snd b1" "map snd b2" "[]"]
    by (simp add: get_upcoming_birthdays_def)
  have "get_upcoming_birthdays today (b1 @ b2)
      = Inr (join [CHR 0x0A] (List.map_filter (congratulation_line today) (map snd (b1 @ b2))))"
    if "valid_date today" "toordinal today + 7 \<le> toordinal date_max"
    using that toordinal_date_max
    by (simp add: get_upcoming_birthdays_def upcoming_loop_lines)
  then show ?thesis using eq by simp
qed

text \<open>
  Claim C3 on 25.02.2025, not a leap year: the record with the birthday 29.02 is left
  out and Bob's line is returned.
\<close>

theorem failed_date_construction_skips_record_witness:
  "next_occurrence \<lparr>year = 2025, month = 2, day = 25\<rparr> 2 29 = None
   \<and> mk_date 2025 2 29 = Inl (ValueError ''day is out of range for month'')
   \<and> get_upcoming_birthdays \<lparr>year = 2025, month = 2, day = 25\<rparr>
        [(''Leap'', \<lparr>name = ''Leap'', phones = [],
                     birthday = Some \<lparr>year = 1984, month = 2, day = 29\<rparr>\<rparr>),
         (''Bob'', \<lparr>name = ''Bob'', phones = [],
                    birthday = Some \<lparr>year = 1985, month = 2, day = 26\<rparr>\<rparr>)]
      = Inr ''Contact name: Bob, birthday: 26.02.2025''"
proof -
  let ?t = "\<lparr>year = 2025, month = 2, day = 25\<rparr>"
  let ?b = "\<lparr>year = 1984, month = 2, day = 29\<rparr>"
  let ?r = "\<lparr>name = ''Leap'', phones = [], birthday = Some ?b\<rparr>"
  let ?bob = "\<lparr>name = ''Bob'', phones = [], birthday = Some \<lparr>year = 1985, month = 2, day = 26\<rparr>\<rparr>"
  have b: "birthday ?r = Some ?b" by simp
  have n: "next_occurrence ?t (month ?b) (day ?b) = None"
    by (simp add: next_occurrence_def calendar_eval)
  have m: "mk_date 2025 2 29 = Inl (ValueError ''day is out of range for month'')"
    by (simp add: calendar_eval)
  have v: "valid_date ?t \<and> toordinal ?t + 7 \<le> toordinal date_max"
    by (simp add: calendar_eval)
  have nb: "next_occurrence ?t 2 26 = Some \<lparr>year = 2025, month = 2, day = 26\<rparr>"
    by (simp add: next_occurrence_def calendar_eval)
  have w: "weekend_shift \<lparr>year = 2025, month = 2, day = 26\<rparr> = \<lparr>year = 2025, month = 2, day = 26\<rparr>"
    by (simp add: weekend_shift_def calendar_eval)
  have f: "strftime_dmy \<lparr>year = 2025, month = 2, day = 26\<rparr> = ''26.02.2025''"
    by (simp add: strftime_dmy_def show_int_def show_nat.simps zfill_def)
  have o: "toordinal \<lparr>year = 2025, month = 2, day = 26\<rparr> \<le> toordinal ?t + 7"
    by (simp add: calendar_eval)
  have c: "congratulation_line ?t ?bob = Some ''Contact name: Bob, birthday: 26.02.2025''"
    using nb w f o by (simp add: congratulation_line_def)
  note t = failed_date_construction_skips_record[OF b n, of "[]" "''Leap''" "[(''Bob'', ?bob)]"]
  have "get_upcoming_birthdays ?t ([] @ (''Leap'', ?r) # [(''Bob'', ?bob)])
      = Inr (join [CHR 0x0A] (List.map_filter (congratulation_line ?t) (map snd ([] @ [(''Bob'', ?bob)]))))"
    by (rule mp[OF conjunct2[OF t] v])
  then have g: "get_upcoming_birthdays ?t [(''Leap'', ?r), (''Bob'', ?bob)]
      = Inr ''Contact name: Bob, birthday: 26.02.2025''"
    using c by (simp add: map_filter_simps)
  show ?thesis using n[simplified] m g by simp
qed

text \<open>
  Claim C9. When no record passes the inclusion test (today + 7 days being a date,
  that is today no later than 24.12.9999), \<^verbatim>\<open>get_upcoming_birthdays\<close> returns the
  empty string. The handler \<^verbatim>\<open>birthdays\<close> replies "No contacts." exactly when the address
  book is empty, whatever the date and the records.
\<close>

theorem no_match_is_empty_string:
  "(valid_date today \<and> toordinal today + 7 \<le> toordinal date_max
      \<and> list_all (\<lambda>(k, r). case birthday r of
                               None \<Rightarrow> True
                             | Some b \<Rightarrow> is_date_within_days today b 7 \<noteq> Inr True) book
     \<longrightarrow> get_upcoming_birthdays today book = Inr '''')
   \<and> ((birthdays today book = Inr ''No contacts.'') = (book = []))"
proof -
  have "get_upcoming_birthdays today book = Inr ''''"
    if v: "valid_date today" and l: "toordinal today + 7 \<le> toordinal date_max"
      and nm: "list_all (\<lambda>(k, r). case birthday r of
                               None \<Rightarrow> True
                             | Some b \<Rightarrow> is_date_within_days today b 7 \<noteq> Inr True) book"
  proof -
    have lim: "toordinal today + 7 \<le> 3652059" using l toordinal_date_max by simp
    have none: "congratulation_line today r = None" if "(k, r) \<in> set book" for k r
    proof (cases "birthday r")
      case None
      then show ?thesis by (simp add: congratulation_line_def)
    next
      case (Some b)
      then have ne: "is_date_within_days today b 7 \<noteq> Inr True"
        using nm that by (auto simp: list_all_iff)
      show ?thesis
      proof (cases "next_occurrence today (month b) (day b)")
        case None
        then show ?thesis using Some by (simp add: congratulation_line_def)
      next
        case (Some occ)
        then show ?thesis
          using ne is_date_within_days_Some[OF v lim Some] \<open>birthday r = Some b\<close>
          by (simp add: congratulation_line_def)
      qed
    qed
    have "List.map_filter (congratulation_line today) (map snd book) = []"
      using none by (auto simp: map_filter_def filter_empty_conv)
    then show ?thesis
      by (simp add: get_upcoming_birthdays_def upcoming_loop_lines[OF v lim])
  qed
  moreover have "(birthdays today book = Inr ''No contacts.'') = (book = [])"
    using get_upcoming_birthdays_not_no_contacts[of today book] by (simp add: birthdays_def)
  ultimately show ?thesis by simp
qed

text \<open>
  Claim C9 on 10.06.2025 with the single contact Ann, birthday 08.06: no match, the
  query and the handler return the empty string, not "No contacts.".
\<close>

theorem no_match_is_empty_string_witness:
  "valid_date \<lparr>year = 2025, month = 6, day = 10\<rparr>
   \<and> toordinal \<lparr>year = 2025, month = 6, day = 10\<rparr> + 7 \<le> toordinal date_max
   \<and> is_date_within_days \<lparr>year = 2025, month = 6, day = 10\<rparr>
        \<lparr>year = 1990, month = 6, day = 8\<rparr> 7 = Inr False
   \<and> get_upcoming_birthdays \<lparr>year = 2025, month = 6, day = 10\<rparr>
        [(''Ann'', \<lparr>name = ''Ann'', phones = [],
                    birthday = Some \<lparr>year = 1990, month = 6, day = 8\<rparr>\<rparr>)] = Inr ''''
   \<and> birthdays \<lparr>year = 2025, month = 6, day = 10\<rparr>
        [(''Ann'', \<lparr>name = ''Ann'', phones = [],
                    birthday = Some \<lparr>year = 1990, month = 6, day = 8\<rparr>\<rparr>)] = Inr ''''
   \<and> birthdays \<lparr>year = 2025, month = 6, day = 10\<rparr> [] = Inr ''No contacts.''"
proof -
  let ?t = "\<lparr>year = 2025, month = 6, day = 10\<rparr>"
  let ?b = "\<lparr>year = 1990, month = 6, day = 8\<rparr>"
  let ?book = "[(''Ann'', \<lparr>name = ''Ann'', phones = [], birthday = Some ?b\<rparr>)]"
  have v: "valid_date ?t" by (simp add: calendar_eval)
  have l: "toordinal ?t + 7 \<le> toordinal date_max" by (simp add: calendar_eval)
  have i: "is_date_within_days ?t ?b 7 = Inr False"
    by (simp add: is_date_within_days_def calendar_eval eval_nat_numeral)
  then have nm: "list_all (\<lambda>(k, r). case birthday r of
                               None \<Rightarrow> True
                             | Some b \<Rightarrow> is_date_within_days ?t b 7 \<noteq> Inr True) ?book"
    by simp
  have e: "birthdays ?t [] = Inr ''No contacts.''" by (simp add: birthdays_def)
  show ?thesis
    using v l i nm e no_match_is_empty_string[of ?t ?book]
    by (simp add: birthdays_def)
qed

end
